theory Spec2Isabelle
  imports Main
begin

text \<open>
  A shallow embedding of the shape descriptor \<open>std::extents\<close> and of the classes it is
  built from, as the header \<open>libcxx/include/__mdspan/extents.h\<close> defines them:
  \<open>static_array\<close>, \<open>index_sequence_scan_impl\<close>, \<open>possibly_empty_array\<close>,
  \<open>maybe_static_array\<close> and \<open>extents\<close>.  Template parameter packs are lists, an
  object is a record of its template arguments and its members, a constructor returns
  the object or the way it fails, and a loop is a recursive function over its index.
\<close>

section \<open>Integer types and conversions\<close>

text \<open>
  The index type of a descriptor is a C++ integer type.  A type is described by its
  signedness and its width in bits; values are mathematical integers and every
  conversion writes the wrap-around out.
\<close>

datatype int_type = Int_Type (is_signed: bool) (width: nat)

definition static_cast :: "int_type \<Rightarrow> int \<Rightarrow> int" where
  "static_cast T v =
     (if is_signed T
      then (v + 2 ^ (width T - 1)) mod 2 ^ width T - 2 ^ (width T - 1)
      else v mod 2 ^ width T)"

definition representable :: "int_type \<Rightarrow> int \<Rightarrow> bool" where
  "representable T v \<longleftrightarrow> static_cast T v = v"

text \<open>
  The usual arithmetic conversions applied by the built-in \<open>==\<close> to two integer
  operands, for a platform whose \<open>int\<close> has 32 bits: both operands are promoted,
  then converted to the common type.
\<close>

definition promote :: "int_type \<Rightarrow> int_type" where
  "promote T = (if width T < 32 then Int_Type True 32 else T)"

definition common_type :: "int_type \<Rightarrow> int_type \<Rightarrow> int_type" where
  "common_type A B =
     (let A' = promote A; B' = promote B in
      if is_signed A' = is_signed B'
      then (if width B' \<le> width A' then A' else B')
      else (let U = (if is_signed A' then B' else A');
                S = (if is_signed A' then A' else B')
            in if width S \<le> width U then U else S))"

definition builtin_eq :: "int_type \<Rightarrow> int \<Rightarrow> int_type \<Rightarrow> int \<Rightarrow> bool" where
  "builtin_eq A a B b \<longleftrightarrow>
     static_cast (common_type A B) a = static_cast (common_type A B) b"

text \<open>
  Modelled from the spec: \<open>std::dynamic_extent\<close> is declared in the header
  \<open>span\<close>, which is not part of the sources at hand.  The spec calls it the dynamic
  sentinel, "conventionally the maximum representable value of the tag's type"; the
  tag type is \<open>size_t\<close>, taken with 64 bits.
\<close>

definition dynamic_extent :: nat where
  "dynamic_extent = 2 ^ 64 - 1"

section \<open>The static array of tags\<close>

text \<open>
  \<open>static_array_impl<R, T, Extents...>::value(r)\<close>.  The pack is a list.  The
  specialisation for the empty pack returns \<open>T()\<close>; the specialisation for a pack of
  one element returns that element whatever \<open>r\<close> is; the general case compares
  \<open>r\<close> with the position \<open>R\<close> of the head.
\<close>

fun static_array_impl_value :: "nat \<Rightarrow> nat list \<Rightarrow> nat \<Rightarrow> nat" where
  "static_array_impl_value R [] r = 0"
| "static_array_impl_value R [FirstExt] r = FirstExt"
| "static_array_impl_value R (FirstExt # Extents) r =
     (if r = R then FirstExt else static_array_impl_value (R + 1) Extents r)"

definition static_array_get :: "nat list \<Rightarrow> nat \<Rightarrow> nat" where
  "static_array_get Values r = static_array_impl_value 0 Values r"

section \<open>The scan of the dynamic flags\<close>

text \<open>
  \<open>index_sequence_scan_impl<R, Values...>::get(r)\<close>.  The general case adds the head
  when \<open>r > R\<close>; the specialisation for a pack of one element tests \<open>R > r\<close>; the
  specialisation for the empty pack returns 0.
\<close>

fun index_sequence_scan_impl_get :: "nat \<Rightarrow> nat list \<Rightarrow> nat \<Rightarrow> nat" where
  "index_sequence_scan_impl_get R [] r = 0"
| "index_sequence_scan_impl_get R [FirstVal] r = (if R > r then FirstVal else 0)"
| "index_sequence_scan_impl_get R (FirstVal # Values) r =
     (if r > R then FirstVal + index_sequence_scan_impl_get (R + 1) Values r else 0)"

text \<open>\<open>size_t(Values == dyn_tag)\<close>, the flag of one tag.\<close>

definition dyn_flag :: "nat \<Rightarrow> nat" where
  "dyn_flag v = (if v = dynamic_extent then 1 else 0)"

text \<open>\<open>dyn_map_t::get(r)\<close> with \<open>dyn_map_t = index_sequence_scan_impl<0, size_t(Values == dyn_tag)...>\<close>.\<close>

definition dyn_map_get :: "nat list \<Rightarrow> nat \<Rightarrow> nat" where
  "dyn_map_get Values r = index_sequence_scan_impl_get 0 (map dyn_flag Values) r"

text \<open>\<open>m_size_dynamic = ((Values == dyn_tag) + ... + 0)\<close>, a right fold.\<close>

definition m_size_dynamic :: "nat list \<Rightarrow> nat" where
  "m_size_dynamic Values = foldr (\<lambda>v n. dyn_flag v + n) Values 0"

section \<open>Builds and failures\<close>

text \<open>
  The macros that decide whether a check is compiled in.  The header guards its checks
  with \<open>_MDSPAN_DEBUG\<close> and writes them with \<open>assert\<close>, which expands to nothing when
  \<open>NDEBUG\<close> is defined.  \<open>_LIBCPP_ENABLE_ASSERTIONS\<close> is the switch of the library's
  \<open>_LIBCPP_ASSERT\<close>, which the header does not use.
\<close>

record build =
  mdspan_debug :: bool
  ndebug :: bool
  libcpp_enable_assertions :: bool

definition assert_active :: "build \<Rightarrow> bool" where
  "assert_active B \<longleftrightarrow> mdspan_debug B \<and> \<not> ndebug B"

text \<open>
  How a construction can end other than with an object: the program does not compile
  (no constructor overload satisfies its constraint, or an initialiser list is too
  long); an \<open>assert\<close> aborts the process and reports the text of its expression; the
  behaviour is undefined (an access out of bounds or the read of an indeterminate
  value).
\<close>

datatype failure =
    Does_Not_Compile
  | Assertion_Failed string
  | Undefined_Behaviour

section \<open>The storage of the dynamic values\<close>

text \<open>
  \<open>possibly_empty_array<T, N>\<close> is the list of its \<open>N\<close> cells.  A cell that was never
  written holds an indeterminate value, \<open>None\<close>.  The specialisation for \<open>N = 0\<close>
  returns \<open>T()\<close> for every index; the general case reads \<open>vals[r]\<close>.
\<close>

definition possibly_empty_array_get :: "int option list \<Rightarrow> nat \<Rightarrow> int option" where
  "possibly_empty_array_get vals r =
     (if length vals = 0 then Some 0
      else if r < length vals then vals ! r
      else None)"

definition possibly_empty_array_set ::
  "int option list \<Rightarrow> nat \<Rightarrow> int \<Rightarrow> int option list option" where
  "possibly_empty_array_set vals r v =
     (if r < length vals then Some (vals[r := Some v]) else None)"

record maybe_static_array =
  TDynamic :: int_type
  Values :: "nat list"
  m_dyn_vals :: "int option list"

definition static_value :: "nat list \<Rightarrow> nat \<Rightarrow> nat" where
  "static_value Vs r = static_array_get Vs r"

text \<open>\<open>maybe_static_array::value(r)\<close>; \<open>None\<close> is undefined behaviour.\<close>

definition maybe_static_array_value :: "maybe_static_array \<Rightarrow> nat \<Rightarrow> int option" where
  "maybe_static_array_value A r =
     (let static_val = static_array_get (Values A) r in
      if static_val = dynamic_extent
      then possibly_empty_array_get (m_dyn_vals A) (dyn_map_get (Values A) r)
      else Some (static_cast (TDynamic A) (int static_val)))"

text \<open>
  \<open>maybe_static_array() = default\<close>.  The constructor initialises no cell.  An object
  that is value-initialised (\<open>T()\<close>, \<open>T{}\<close>) is zero-initialised before the constructor
  runs, because the constructor is not user-provided; an object that is
  default-initialised (\<open>T x;\<close>) is not.
\<close>

datatype initialization = Default_Initialization | Value_Initialization

definition maybe_static_array_default ::
  "initialization \<Rightarrow> int_type \<Rightarrow> nat list \<Rightarrow> maybe_static_array" where
  "maybe_static_array_default i T Vs =
     \<lparr>TDynamic = T, Values = Vs,
      m_dyn_vals = replicate (m_size_dynamic Vs)
        (case i of Default_Initialization \<Rightarrow> None | Value_Initialization \<Rightarrow> Some 0)\<rparr>"

text \<open>
  The loop of the three constructors "from all values":
  \<open>for (r = 0; r < m_size; r++)\<close>, storing the value of a dynamic dimension at its
  slot and, when the check is compiled in, asserting that the value of a static
  dimension is the tag.  \<open>values\<close> are the arguments converted to \<open>TDynamic\<close>;
  \<open>expr\<close> is the text of the asserted expression.
\<close>

function full_form_loop ::
  "bool \<Rightarrow> string \<Rightarrow> int_type \<Rightarrow> nat list \<Rightarrow> int list \<Rightarrow> nat \<Rightarrow> int option list
     \<Rightarrow> failure + int option list" where
  "full_form_loop chk expr T Vs values r dyn =
     (if r < length Vs then
        (let static_val = static_array_get Vs r in
         if static_val = dynamic_extent then
           (if r < length values then
              (case possibly_empty_array_set dyn (dyn_map_get Vs r) (values ! r) of
                 None \<Rightarrow> Inl Undefined_Behaviour
               | Some dyn' \<Rightarrow> full_form_loop chk expr T Vs values (r + 1) dyn')
            else Inl Undefined_Behaviour)
         else if chk then
           (if r < length values then
              (if values ! r = static_cast T (int static_val)
               then full_form_loop chk expr T Vs values (r + 1) dyn
               else Inl (Assertion_Failed expr))
            else Inl Undefined_Behaviour)
         else full_form_loop chk expr T Vs values (r + 1) dyn)
      else Inr dyn)"
  by pat_completeness auto
termination
  by (relation "measure (\<lambda>(chk, expr, T, Vs, values, r, dyn). length Vs - r)") auto

declare full_form_loop.simps [simp del]

definition with_dyn_vals ::
  "int_type \<Rightarrow> nat list \<Rightarrow> failure + int option list \<Rightarrow> failure + maybe_static_array" where
  "with_dyn_vals T Vs res =
     (case res of
        Inl f \<Rightarrow> Inl f
      | Inr dyn \<Rightarrow> Inr \<lparr>TDynamic = T, Values = Vs, m_dyn_vals = dyn\<rparr>)"

text \<open>
  The variadic constructors of \<open>maybe_static_array\<close>.  With no dynamic dimension the
  overload that ignores its arguments is the only one whose constraint holds; with as
  many arguments as dynamic dimensions the values initialise the cells in order;
  otherwise the loop over all dimensions runs on the local array
  \<open>TDynamic values[m_size]{static_cast<TDynamic>(vals)...}\<close>, which is ill-formed with
  more than \<open>m_size\<close> initialisers and zero-filled with fewer.
\<close>

definition maybe_static_array_from_scalars ::
  "build \<Rightarrow> int_type \<Rightarrow> nat list \<Rightarrow> int list \<Rightarrow> failure + maybe_static_array" where
  "maybe_static_array_from_scalars B T Vs vals =
     (if m_size_dynamic Vs = 0 then
        Inr \<lparr>TDynamic = T, Values = Vs, m_dyn_vals = []\<rparr>
      else if length vals = m_size_dynamic Vs then
        Inr \<lparr>TDynamic = T, Values = Vs,
             m_dyn_vals = map (\<lambda>v. Some (static_cast T v)) vals\<rparr>
      else if length Vs < length vals then Inl Does_Not_Compile
      else with_dyn_vals T Vs
        (full_form_loop (assert_active B)
           ''values[r] == static_cast<TDynamic>(static_val)'' T Vs
           (map (static_cast T) vals @ replicate (length Vs - length vals) 0) 0
           (replicate (m_size_dynamic Vs) None)))"

text \<open>
  The constructors from \<open>std::array<T, N>\<close>: with \<open>N = m_size_dynamic\<close> the elements
  are copied in order (nothing to copy when \<open>N = 0\<close>); with another \<open>N\<close> and a dynamic
  dimension the loop over all dimensions runs, reading \<open>vals[r]\<close>; with another \<open>N\<close>
  and no dynamic dimension only the variadic overload that ignores its arguments is
  left, called with the array as its one argument.
\<close>

definition maybe_static_array_from_array ::
  "build \<Rightarrow> int_type \<Rightarrow> nat list \<Rightarrow> int list \<Rightarrow> failure + maybe_static_array" where
  "maybe_static_array_from_array B T Vs vals =
     (if length vals = m_size_dynamic Vs then
        Inr \<lparr>TDynamic = T, Values = Vs,
             m_dyn_vals = map (\<lambda>v. Some (static_cast T v)) vals\<rparr>
      else if 0 < m_size_dynamic Vs then
        with_dyn_vals T Vs
          (full_form_loop (assert_active B)
             ''static_cast<TDynamic>(vals[r]) == static_cast<TDynamic>(static_val)'' T Vs
             (map (static_cast T) vals) 0 (replicate (m_size_dynamic Vs) None))
      else Inr \<lparr>TDynamic = T, Values = Vs, m_dyn_vals = []\<rparr>)"

text \<open>
  The constructors from \<open>std::span<T, N>\<close>.  Unlike the array, the span has no overload
  of its own for \<open>N = 0\<close>: the overload constrained by \<open>N == m_size_dynamic\<close> alone is
  selected for \<open>N = m_size_dynamic = 0\<close> too, and its body
  \<open>m_dyn_vals[r] = static_cast<TDynamic>(vals[r])\<close> assigns to the value that
  \<open>possibly_empty_array<T, 0>::operator[]\<close> returns, which does not compile.  With
  \<open>N = m_size_dynamic > 0\<close> the elements are copied in order; the other two cases are
  those of the array.
\<close>

definition maybe_static_array_from_span ::
  "build \<Rightarrow> int_type \<Rightarrow> nat list \<Rightarrow> int list \<Rightarrow> failure + maybe_static_array" where
  "maybe_static_array_from_span B T Vs vals =
     (if length vals = m_size_dynamic Vs then
        (if length vals = 0 then Inl Does_Not_Compile
         else Inr \<lparr>TDynamic = T, Values = Vs,
                m_dyn_vals = map (\<lambda>v. Some (static_cast T v)) vals\<rparr>)
      else if 0 < m_size_dynamic Vs then
        with_dyn_vals T Vs
          (full_form_loop (assert_active B)
             ''static_cast<TDynamic>(vals[r]) == static_cast<TDynamic>(static_val)'' T Vs
             (map (static_cast T) vals) 0 (replicate (m_size_dynamic Vs) None))
      else Inr \<lparr>TDynamic = T, Values = Vs, m_dyn_vals = []\<rparr>)"

section \<open>The descriptor\<close>

text \<open>
  \<open>extents<IndexType, Extents...>\<close> holds one member, \<open>m_vals\<close>, of type
  \<open>maybe_static_array<IndexType, size_t, dynamic_extent, Extents...>\<close>; the template
  arguments of the class are those of the member.
\<close>

record extents =
  m_vals :: maybe_static_array

definition index_type :: "extents \<Rightarrow> int_type" where
  "index_type E = TDynamic (m_vals E)"

definition Extents_of :: "extents \<Rightarrow> nat list" where
  "Extents_of E = Values (m_vals E)"

definition rank :: "extents \<Rightarrow> nat" where
  "rank E = length (Extents_of E)"

definition rank_dynamic :: "extents \<Rightarrow> nat" where
  "rank_dynamic E = m_size_dynamic (Extents_of E)"

text \<open>
  \<open>extent(r)\<close> and \<open>static_extent(r)\<close>.  The argument is the index as the storage
  receives it, converted to \<open>size_t\<close>.  Neither function tests the index.
\<close>

definition extent :: "extents \<Rightarrow> nat \<Rightarrow> int option" where
  "extent E r = maybe_static_array_value (m_vals E) r"

definition static_extent :: "extents \<Rightarrow> nat \<Rightarrow> nat" where
  "static_extent E r = static_value (Extents_of E) r"

definition with_m_vals :: "failure + maybe_static_array \<Rightarrow> failure + extents" where
  "with_m_vals res = (case res of Inl f \<Rightarrow> Inl f | Inr A \<Rightarrow> Inr \<lparr>m_vals = A\<rparr>)"

text \<open>\<open>extents() = default\<close>.\<close>

definition extents_default :: "initialization \<Rightarrow> int_type \<Rightarrow> nat list \<Rightarrow> extents" where
  "extents_default i T Es = \<lparr>m_vals = maybe_static_array_default i T Es\<rparr>"

text \<open>
  \<open>extents(OtherIndexTypes... dynvals)\<close>: constrained to \<open>rank\<close> or \<open>rank_dynamic\<close>
  arguments, each converted to \<open>index_type\<close> and passed on.
\<close>

definition extents_from_scalars ::
  "build \<Rightarrow> int_type \<Rightarrow> nat list \<Rightarrow> int list \<Rightarrow> failure + extents" where
  "extents_from_scalars B T Es dynvals =
     (if length dynvals = length Es \<or> length dynvals = m_size_dynamic Es
      then with_m_vals
        (maybe_static_array_from_scalars B T Es (map (static_cast T) dynvals))
      else Inl Does_Not_Compile)"

text \<open>\<open>extents(const array<OtherIndexType, N>& exts)\<close>.\<close>

definition extents_from_array ::
  "build \<Rightarrow> int_type \<Rightarrow> nat list \<Rightarrow> int list \<Rightarrow> failure + extents" where
  "extents_from_array B T Es exts =
     (if length exts = length Es \<or> length exts = m_size_dynamic Es
      then with_m_vals (maybe_static_array_from_array B T Es exts)
      else Inl Does_Not_Compile)"

text \<open>\<open>extents(const span<OtherIndexType, N>& exts)\<close>.\<close>

definition extents_from_span ::
  "build \<Rightarrow> int_type \<Rightarrow> nat list \<Rightarrow> int list \<Rightarrow> failure + extents" where
  "extents_from_span B T Es exts =
     (if length exts = length Es \<or> length exts = m_size_dynamic Es
      then with_m_vals (maybe_static_array_from_span B T Es exts)
      else Inl Does_Not_Compile)"

text \<open>
  The converting constructor.  Its constraint: equal ranks, and at every dimension one
  of the two tags is dynamic or the tags are equal.
\<close>

definition convertible :: "nat list \<Rightarrow> nat list \<Rightarrow> bool" where
  "convertible Es OtherExtents \<longleftrightarrow>
     length OtherExtents = length Es \<and>
     list_all2 (\<lambda>Ext Other. Other = dynamic_extent \<or> Ext = dynamic_extent \<or> Other = Ext)
       Es OtherExtents"

text \<open>
  The loop of the converting constructor over the local array
  \<open>index_type vals[m_rank_dynamic]\<close>, which starts with indeterminate cells:
  \<open>if (static_extent(r) == dynamic_extent) vals[dyn_map_t::get(r)] = other.extent(r)\<close>.
\<close>

function convert_loop ::
  "int_type \<Rightarrow> nat list \<Rightarrow> extents \<Rightarrow> nat \<Rightarrow> int option list \<Rightarrow> failure + int option list"
  where
  "convert_loop T Es other r vals =
     (if r < length Es then
        (if static_value Es r = dynamic_extent then
           (case extent other r of
              None \<Rightarrow> Inl Undefined_Behaviour
            | Some e \<Rightarrow>
                (if dyn_map_get Es r < length vals
                 then convert_loop T Es other (r + 1)
                        (vals[dyn_map_get Es r := Some (static_cast T e)])
                 else Inl Undefined_Behaviour))
         else convert_loop T Es other (r + 1) vals)
      else Inr vals)"
  by pat_completeness auto
termination
  by (relation "measure (\<lambda>(T, Es, other, r, vals). length Es - r)") auto

declare convert_loop.simps [simp del]

text \<open>
  The body runs only with a dynamic destination dimension; it ends with
  \<open>m_vals = vals_t(span<index_type, m_rank_dynamic>(vals))\<close>, the copy of every cell
  of the local array.  Without a dynamic dimension the member keeps its (empty)
  default-initialised storage.  No build macro occurs in the constructor.
\<close>

definition extents_convert :: "int_type \<Rightarrow> nat list \<Rightarrow> extents \<Rightarrow> failure + extents" where
  "extents_convert T Es other =
     (if convertible Es (Extents_of other) then
        (if 0 < m_size_dynamic Es then
           (case convert_loop T Es other 0 (replicate (m_size_dynamic Es) None) of
              Inl f \<Rightarrow> Inl f
            | Inr vals \<Rightarrow>
                (case those vals of
                   None \<Rightarrow> Inl Undefined_Behaviour
                 | Some vs \<Rightarrow>
                     Inr \<lparr>m_vals = \<lparr>TDynamic = T, Values = Es,
                            m_dyn_vals = map (\<lambda>v. Some (static_cast T v)) vs\<rparr>\<rparr>))
         else Inr \<lparr>m_vals = maybe_static_array_default Default_Initialization T Es\<rparr>)
      else Inl Does_Not_Compile)"

text \<open>
  \<open>operator==\<close>: \<open>for (r = 0; r < m_rank; r++) value &= ext.extent(r) == ext2.extent(r)\<close>,
  with \<open>m_rank\<close> the rank of the left operand and the built-in comparison of the two
  index types.  \<open>None\<close> is undefined behaviour.
\<close>

function eq_loop :: "extents \<Rightarrow> extents \<Rightarrow> nat \<Rightarrow> bool \<Rightarrow> bool option" where
  "eq_loop ext ext2 r val =
     (if r < rank ext then
        (case extent ext r of
           None \<Rightarrow> None
         | Some a \<Rightarrow>
             (case extent ext2 r of
                None \<Rightarrow> None
              | Some b \<Rightarrow>
                  eq_loop ext ext2 (r + 1)
                    (val \<and> builtin_eq (index_type ext) a (index_type ext2) b)))
      else Some val)"
  by pat_completeness auto
termination
  by (relation "measure (\<lambda>(ext, ext2, r, val). rank ext - r)") auto

declare eq_loop.simps [simp del]

definition extents_eq :: "extents \<Rightarrow> extents \<Rightarrow> bool option" where
  "extents_eq ext ext2 = eq_loop ext ext2 0 True"

section \<open>Notions used in the statements\<close>

text \<open>The number of dynamic tags among the first \<open>r\<close> tags.\<close>

definition dynamic_before :: "nat list \<Rightarrow> nat \<Rightarrow> nat" where
  "dynamic_before Vs r = length (filter (\<lambda>v. v = dynamic_extent) (take r Vs))"

text \<open>
  A descriptor whose storage has one cell for every dynamic dimension, each holding a
  value of the index type.
\<close>

definition well_formed :: "extents \<Rightarrow> bool" where
  "well_formed E \<longleftrightarrow>
     length (m_dyn_vals (m_vals E)) = rank_dynamic E \<and>
     list_all (\<lambda>c. case c of None \<Rightarrow> False | Some v \<Rightarrow> representable (index_type E) v)
       (m_dyn_vals (m_vals E))"

text \<open>The sequence \<open>extent(0), ..., extent(rank - 1)\<close>, when every read is defined.\<close>

definition extent_list :: "extents \<Rightarrow> int list option" where
  "extent_list E = those (map (extent E) [0..<rank E])"

text \<open>What a storage object holds after a construction from all values.\<close>

definition holds_all ::
  "int_type \<Rightarrow> nat list \<Rightarrow> int list \<Rightarrow> maybe_static_array \<Rightarrow> bool" where
  "holds_all T Vs vals A \<longleftrightarrow>
     TDynamic A = T \<and> Values A = Vs \<and> length (m_dyn_vals A) = m_size_dynamic Vs \<and>
     (\<forall>k<length Vs. Vs ! k = dynamic_extent \<longrightarrow>
        m_dyn_vals A ! dynamic_before Vs k = Some (static_cast T (vals ! k)))"

section \<open>Facts about the tag table and the scan\<close>

lemma static_array_impl_value_nth:
  "r < length Extents \<Longrightarrow> static_array_impl_value R Extents (R + r) = Extents ! r"
proof (induction R Extents "R + r" arbitrary: r rule: static_array_impl_value.induct)
  case (1 R)
  then show ?case by simp
next
  case (2 R FirstExt)
  then show ?case by simp
next
  case (3 R FirstExt v va)
  show ?case
  proof (cases r)
    case 0
    then show ?thesis by simp
  next
    case (Suc k)
    with 3 have "static_array_impl_value (R + 1) (v # va) (R + 1 + k) = (v # va) ! k"
      by simp
    with Suc show ?thesis by simp
  qed
qed

lemma static_array_get_nth:
  "r < length Vs \<Longrightarrow> static_array_get Vs r = Vs ! r"
  using static_array_impl_value_nth [of r Vs 0] by (simp add: static_array_get_def)

lemma scan_prefix_sum:
  "r < length Vs \<Longrightarrow>
     index_sequence_scan_impl_get R Vs (R + r) = sum_list (take r Vs)"
proof (induction R Vs "R + r" arbitrary: r rule: index_sequence_scan_impl_get.induct)
  case (1 R)
  then show ?case by simp
next
  case (2 R FirstVal)
  then show ?case by simp
next
  case (3 R FirstVal v va)
  show ?case
  proof (cases r)
    case 0
    then show ?thesis by simp
  next
    case (Suc k)
    with 3 have "index_sequence_scan_impl_get (R + 1) (v # va) (R + 1 + k)
                   = sum_list (take k (v # va))"
      by simp
    with Suc show ?thesis by simp
  qed
qed

lemma sum_list_dyn_flag:
  "sum_list (map dyn_flag vs) = length (filter (\<lambda>v. v = dynamic_extent) vs)"
  by (induction vs) (simp_all add: dyn_flag_def)

lemma dyn_map_get_in_range:
  "r < length Vs \<Longrightarrow> dyn_map_get Vs r = dynamic_before Vs r"
  using scan_prefix_sum [of r "map dyn_flag Vs" 0]
  by (simp add: dyn_map_get_def dynamic_before_def take_map sum_list_dyn_flag)

lemma m_size_dynamic_count:
  "m_size_dynamic Vs = length (filter (\<lambda>v. v = dynamic_extent) Vs)"
  by (induction Vs) (simp_all add: m_size_dynamic_def dyn_flag_def)

section \<open>Facts about the slots of the dynamic dimensions\<close>

lemma dynamic_before_le:
  "a \<le> b \<Longrightarrow> dynamic_before Vs a \<le> dynamic_before Vs b"
proof -
  assume "a \<le> b"
  then have "take a Vs = take a (take b Vs)" by (simp add: min_def)
  then have "filter (\<lambda>v. v = dynamic_extent) (take b Vs)
      = filter (\<lambda>v. v = dynamic_extent) (take a Vs) @
        filter (\<lambda>v. v = dynamic_extent) (drop a (take b Vs))"
    by (metis append_take_drop_id filter_append)
  then show ?thesis by (simp add: dynamic_before_def)
qed

lemma dynamic_before_Suc:
  "r < length Vs \<Longrightarrow> Vs ! r = dynamic_extent \<Longrightarrow>
   dynamic_before Vs (Suc r) = Suc (dynamic_before Vs r)"
  by (simp add: dynamic_before_def take_Suc_conv_app_nth)

lemma dynamic_before_all: "length Vs \<le> r \<Longrightarrow> dynamic_before Vs r = m_size_dynamic Vs"
  by (simp add: dynamic_before_def m_size_dynamic_count)

lemma dynamic_before_less:
  assumes "r < length Vs" "Vs ! r = dynamic_extent"
  shows "dynamic_before Vs r < m_size_dynamic Vs"
proof -
  have "dynamic_before Vs (Suc r) \<le> dynamic_before Vs (length Vs)"
    using assms(1) by (intro dynamic_before_le) simp
  then show ?thesis
    using assms by (simp add: dynamic_before_Suc dynamic_before_all)
qed

lemma dynamic_before_strict:
  assumes "k < r" "k < length Vs" "Vs ! k = dynamic_extent"
  shows "dynamic_before Vs k < dynamic_before Vs r"
proof -
  have "dynamic_before Vs (Suc k) \<le> dynamic_before Vs r"
    using assms(1) by (intro dynamic_before_le) simp
  then show ?thesis using assms by (simp add: dynamic_before_Suc)
qed

lemma dynamic_before_surj:
  "i < m_size_dynamic Vs \<Longrightarrow>
     \<exists>k<length Vs. Vs ! k = dynamic_extent \<and> dynamic_before Vs k = i"
proof (induction Vs rule: rev_induct)
  case Nil
  then show ?case by (simp add: m_size_dynamic_count)
next
  case (snoc x xs)
  have keep: "dynamic_before (xs @ [x]) k = dynamic_before xs k" if "k \<le> length xs" for k
    using that by (simp add: dynamic_before_def)
  show ?case
  proof (cases "i < m_size_dynamic xs")
    case True
    with snoc.IH obtain k where "k < length xs" "xs ! k = dynamic_extent"
      "dynamic_before xs k = i" by blast
    then show ?thesis
      by (intro exI [of _ k]) (simp add: keep nth_append)
  next
    case False
    with snoc.prems have x: "x = dynamic_extent" and i: "i = m_size_dynamic xs"
      by (auto simp add: m_size_dynamic_count split: if_splits)
    have "dynamic_before (xs @ [x]) (length xs) = i"
      using i by (simp add: keep dynamic_before_all)
    then show ?thesis
      using x by (intro exI [of _ "length xs"]) simp
  qed
qed

lemma filter_all:
  "length (filter P xs) = length xs \<Longrightarrow> \<forall>x\<in>set xs. P x"
proof (induction xs)
  case Nil
  then show ?case by simp
next
  case (Cons a xs)
  have le: "length (filter P xs) \<le> length xs" by simp
  show ?case
  proof (cases "P a")
    case True
    with Cons.prems have "length (filter P xs) = length xs" by simp
    from Cons.IH [OF this] True show ?thesis by simp
  next
    case False
    with Cons.prems have "length (filter P xs) = Suc (length xs)" by simp
    with le show ?thesis by simp
  qed
qed

lemma all_dynamic:
  assumes "m_size_dynamic Vs = length Vs" "r < length Vs"
  shows "Vs ! r = dynamic_extent" and "dynamic_before Vs r = r"
proof -
  have all: "\<forall>v\<in>set Vs. v = dynamic_extent"
    by (rule filter_all) (use assms(1) in \<open>simp add: m_size_dynamic_count\<close>)
  then show "Vs ! r = dynamic_extent" using assms(2) by simp
  have "\<forall>v\<in>set (take r Vs). v = dynamic_extent" using all by (meson in_set_takeD)
  then show "dynamic_before Vs r = r"
    using assms(2) by (simp add: dynamic_before_def)
qed

lemma none_dynamic:
  assumes "m_size_dynamic Vs = 0" "r < length Vs"
  shows "Vs ! r \<noteq> dynamic_extent"
  using assms by (auto simp add: m_size_dynamic_count filter_empty_conv)

section \<open>Facts about the accessors\<close>

lemma static_cast_idem: "static_cast T (static_cast T v) = static_cast T v"
  by (simp add: static_cast_def)

lemma extent_in_range:
  "r < rank E \<Longrightarrow>
   extent E r =
     (if Extents_of E ! r = dynamic_extent
      then possibly_empty_array_get (m_dyn_vals (m_vals E)) (dynamic_before (Extents_of E) r)
      else Some (static_cast (index_type E) (int (Extents_of E ! r))))"
  by (simp add: extent_def maybe_static_array_value_def Let_def static_array_get_nth
      dyn_map_get_in_range rank_def Extents_of_def index_type_def)

lemma extent_of_cells:
  assumes "length (m_dyn_vals (m_vals E)) = m_size_dynamic (Extents_of E)"
    and "\<forall>k<rank E. Extents_of E ! k = dynamic_extent \<longrightarrow>
           m_dyn_vals (m_vals E) ! dynamic_before (Extents_of E) k = Some (f k)"
    and "r < rank E"
  shows "extent E r =
     Some (if Extents_of E ! r = dynamic_extent then f r
           else static_cast (index_type E) (int (Extents_of E ! r)))"
proof (cases "Extents_of E ! r = dynamic_extent")
  case True
  then have "dynamic_before (Extents_of E) r < length (m_dyn_vals (m_vals E))"
    using assms(1,3) by (simp add: dynamic_before_less rank_def)
  then show ?thesis
    using True assms(2,3) by (auto simp add: extent_in_range possibly_empty_array_get_def)
next
  case False
  then show ?thesis using assms(3) by (simp add: extent_in_range)
qed

lemma those_map_Some:
  "(\<forall>x\<in>set xs. \<exists>v. f x = Some v) \<Longrightarrow> those (map f xs) = Some (map (\<lambda>x. the (f x)) xs)"
  by (induction xs) auto

lemma well_formed_extent:
  assumes "well_formed E" "r < rank E"
  shows "\<exists>v. extent E r = Some v \<and> static_cast (index_type E) v = v"
proof (cases "Extents_of E ! r = dynamic_extent")
  case True
  let ?i = "dynamic_before (Extents_of E) r"
  have i: "?i < length (m_dyn_vals (m_vals E))"
    using assms True by (simp add: well_formed_def rank_dynamic_def rank_def dynamic_before_less)
  have "list_all (\<lambda>c. case c of None \<Rightarrow> False | Some v \<Rightarrow> representable (index_type E) v)
       (m_dyn_vals (m_vals E))"
    using assms(1) by (simp add: well_formed_def)
  with i have "case m_dyn_vals (m_vals E) ! ?i of None \<Rightarrow> False
     | Some v \<Rightarrow> representable (index_type E) v"
    by (simp add: list_all_length)
  then obtain v where "m_dyn_vals (m_vals E) ! ?i = Some v" "representable (index_type E) v"
    by (cases "m_dyn_vals (m_vals E) ! ?i") auto
  then show ?thesis
    using True i assms(2)
    by (auto simp add: extent_in_range possibly_empty_array_get_def representable_def)
next
  case False
  then show ?thesis using assms(2) by (simp add: extent_in_range static_cast_idem)
qed

lemma well_formed_extent_list:
  assumes "well_formed E"
  shows "extent_list E = Some (map (\<lambda>r. the (extent E r)) [0..<rank E])"
proof -
  have "\<forall>x\<in>set [0..<rank E]. \<exists>v. extent E x = Some v"
  proof
    fix x assume "x \<in> set [0..<rank E]"
    then have "x < rank E" by simp
    from well_formed_extent [OF assms this] show "\<exists>v. extent E x = Some v" by blast
  qed
  then show ?thesis unfolding extent_list_def by (rule those_map_Some)
qed

lemma eval_extent_D7:
  "well_formed \<lparr>m_vals = \<lparr>TDynamic = Int_Type True 32, Values = [dynamic_extent, 7],
      m_dyn_vals = [Some 5]\<rparr>\<rparr>"
  "extent \<lparr>m_vals = \<lparr>TDynamic = Int_Type True 32, Values = [dynamic_extent, 7],
      m_dyn_vals = [Some 5]\<rparr>\<rparr> 0 = Some 5"
  "extent \<lparr>m_vals = \<lparr>TDynamic = Int_Type True 32, Values = [dynamic_extent, 7],
      m_dyn_vals = [Some 5]\<rparr>\<rparr> 1 = Some 7"
  by (simp_all add: well_formed_def rank_dynamic_def Extents_of_def index_type_def
      m_size_dynamic_def dyn_flag_def dynamic_extent_def representable_def static_cast_def
      extent_def maybe_static_array_value_def static_array_get_def dyn_map_get_def
      possibly_empty_array_get_def)

lemma eval_extent_DD:
  "well_formed \<lparr>m_vals = \<lparr>TDynamic = Int_Type True 32,
      Values = [dynamic_extent, dynamic_extent], m_dyn_vals = [Some 4, Some 9]\<rparr>\<rparr>"
  "extent \<lparr>m_vals = \<lparr>TDynamic = Int_Type True 32,
      Values = [dynamic_extent, dynamic_extent], m_dyn_vals = [Some 4, Some 9]\<rparr>\<rparr> 0 = Some 4"
  "extent \<lparr>m_vals = \<lparr>TDynamic = Int_Type True 32,
      Values = [dynamic_extent, dynamic_extent], m_dyn_vals = [Some 4, Some 9]\<rparr>\<rparr> 1 = Some 9"
  by (simp_all add: well_formed_def rank_dynamic_def Extents_of_def index_type_def
      m_size_dynamic_def dyn_flag_def dynamic_extent_def representable_def static_cast_def
      extent_def maybe_static_array_value_def static_array_get_def dyn_map_get_def
      possibly_empty_array_get_def)

section \<open>Facts about the construction from all values\<close>

lemma full_form_loop_result:
  assumes "length values = length Vs" "length dyn = m_size_dynamic Vs"
    and "chk \<longrightarrow> (\<forall>k. r \<le> k \<and> k < length Vs \<and> Vs ! k \<noteq> dynamic_extent \<longrightarrow>
            values ! k = static_cast T (int (Vs ! k)))"
  shows "\<exists>dyn'. full_form_loop chk expr T Vs values r dyn = Inr dyn' \<and>
           length dyn' = length dyn \<and>
           (\<forall>k<length Vs. Vs ! k = dynamic_extent \<longrightarrow>
              dyn' ! dynamic_before Vs k =
                (if r \<le> k then Some (values ! k) else dyn ! dynamic_before Vs k))"
  using assms
proof (induction "length Vs - r" arbitrary: r dyn)
  case 0
  then have "\<not> r < length Vs" by simp
  then show ?case by (subst full_form_loop.simps) simp
next
  case (Suc n)
  then have r: "r < length Vs" by simp
  have n: "n = length Vs - (r + 1)" using Suc.hyps(2) by simp
  show ?case
  proof (cases "Vs ! r = dynamic_extent")
    case True
    let ?s = "dynamic_before Vs r"
    let ?dyn1 = "dyn[?s := Some (values ! r)]"
    have s: "?s < length dyn" using r True Suc.prems(2) by (simp add: dynamic_before_less)
    have chk': "chk \<longrightarrow> (\<forall>k. r + 1 \<le> k \<and> k < length Vs \<and> Vs ! k \<noteq> dynamic_extent \<longrightarrow>
            values ! k = static_cast T (int (Vs ! k)))"
      using Suc.prems(3) by simp
    from Suc.hyps(1) [OF n Suc.prems(1) _ chk', of ?dyn1] Suc.prems(2)
    obtain dyn' where d: "full_form_loop chk expr T Vs values (r + 1) ?dyn1 = Inr dyn'"
      "length dyn' = length ?dyn1"
      "\<forall>k<length Vs. Vs ! k = dynamic_extent \<longrightarrow>
              dyn' ! dynamic_before Vs k =
                (if r + 1 \<le> k then Some (values ! k) else ?dyn1 ! dynamic_before Vs k)"
      by auto
    have step: "full_form_loop chk expr T Vs values r dyn = Inr dyn'"
      using r True s d(1) Suc.prems(1)
      by (subst full_form_loop.simps)
         (simp add: static_array_get_nth dyn_map_get_in_range possibly_empty_array_set_def)
    have "\<forall>k<length Vs. Vs ! k = dynamic_extent \<longrightarrow>
              dyn' ! dynamic_before Vs k =
                (if r \<le> k then Some (values ! k) else dyn ! dynamic_before Vs k)"
    proof (intro allI impI)
      fix k assume k: "k < length Vs" "Vs ! k = dynamic_extent"
      consider "k < r" | "k = r" | "r < k" by linarith
      then show "dyn' ! dynamic_before Vs k =
                (if r \<le> k then Some (values ! k) else dyn ! dynamic_before Vs k)"
      proof cases
        case 1
        then have "dynamic_before Vs k < ?s" using k by (simp add: dynamic_before_strict)
        then show ?thesis using d(3) k 1 by simp
      next
        case 2
        then show ?thesis using d(3) k s by simp
      next
        case 3
        then show ?thesis using d(3) k by simp
      qed
    qed
    with step d(2) show ?thesis by simp
  next
    case False
    have chk': "chk \<longrightarrow> (\<forall>k. r + 1 \<le> k \<and> k < length Vs \<and> Vs ! k \<noteq> dynamic_extent \<longrightarrow>
            values ! k = static_cast T (int (Vs ! k)))"
      using Suc.prems(3) by simp
    from Suc.hyps(1) [OF n Suc.prems(1) Suc.prems(2) chk']
    obtain dyn' where d: "full_form_loop chk expr T Vs values (r + 1) dyn = Inr dyn'"
      "length dyn' = length dyn"
      "\<forall>k<length Vs. Vs ! k = dynamic_extent \<longrightarrow>
              dyn' ! dynamic_before Vs k =
                (if r + 1 \<le> k then Some (values ! k) else dyn ! dynamic_before Vs k)"
      by auto
    have ok: "chk \<longrightarrow> values ! r = static_cast T (int (Vs ! r))"
      using Suc.prems(3) r False by simp
    have step: "full_form_loop chk expr T Vs values r dyn = Inr dyn'"
      using r False d(1) Suc.prems(1) ok
      by (subst full_form_loop.simps) (auto simp add: static_array_get_nth)
    have "\<forall>k<length Vs. Vs ! k = dynamic_extent \<longrightarrow>
              dyn' ! dynamic_before Vs k =
                (if r \<le> k then Some (values ! k) else dyn ! dynamic_before Vs k)"
      using d(3) False by (auto simp: le_less Suc_le_eq)
    with step d(2) show ?thesis by simp
  qed
qed

lemma full_form_cells:
  assumes "length values = length Vs"
    and "chk \<longrightarrow> (\<forall>k<length Vs. Vs ! k \<noteq> dynamic_extent \<longrightarrow>
            values ! k = static_cast T (int (Vs ! k)))"
  shows "\<exists>dyn. full_form_loop chk expr T Vs values 0 (replicate (m_size_dynamic Vs) None)
             = Inr dyn \<and>
           length dyn = m_size_dynamic Vs \<and>
           (\<forall>k<length Vs. Vs ! k = dynamic_extent \<longrightarrow>
              dyn ! dynamic_before Vs k = Some (values ! k))"
proof -
  have "chk \<longrightarrow> (\<forall>k. 0 \<le> k \<and> k < length Vs \<and> Vs ! k \<noteq> dynamic_extent \<longrightarrow>
            values ! k = static_cast T (int (Vs ! k)))"
    using assms(2) by simp
  from full_form_loop_result [OF assms(1) _ this, of "replicate (m_size_dynamic Vs) None" expr]
  show ?thesis by simp
qed

lemma from_array_full:
  assumes len: "length vals = length Vs"
    and ok: "assert_active B \<longrightarrow> (\<forall>k<length Vs. Vs ! k \<noteq> dynamic_extent \<longrightarrow>
            static_cast T (vals ! k) = static_cast T (int (Vs ! k)))"
  shows "\<exists>A. maybe_static_array_from_array B T Vs vals = Inr A \<and> holds_all T Vs vals A"
proof -
  consider (all) "length vals = m_size_dynamic Vs"
    | (some) "length vals \<noteq> m_size_dynamic Vs" "0 < m_size_dynamic Vs"
    | (none) "length vals \<noteq> m_size_dynamic Vs" "m_size_dynamic Vs = 0"
    by linarith
  then show ?thesis
  proof cases
    case all
    then have "m_size_dynamic Vs = length Vs" using len by simp
    then have "\<forall>k<length Vs. dynamic_before Vs k = k" by (simp add: all_dynamic)
    then show ?thesis
      using all len by (simp add: maybe_static_array_from_array_def holds_all_def)
  next
    case some
    have "assert_active B \<longrightarrow> (\<forall>k<length Vs. Vs ! k \<noteq> dynamic_extent \<longrightarrow>
            map (static_cast T) vals ! k = static_cast T (int (Vs ! k)))"
      using ok len by simp
    from full_form_cells [OF _ this,
        of "''static_cast<TDynamic>(vals[r]) == static_cast<TDynamic>(static_val)''"]
    obtain dyn where
      "full_form_loop (assert_active B)
         ''static_cast<TDynamic>(vals[r]) == static_cast<TDynamic>(static_val)'' T Vs
         (map (static_cast T) vals) 0 (replicate (m_size_dynamic Vs) None) = Inr dyn"
      "length dyn = m_size_dynamic Vs"
      "\<forall>k<length Vs. Vs ! k = dynamic_extent \<longrightarrow>
              dyn ! dynamic_before Vs k = Some (map (static_cast T) vals ! k)"
      using len by auto
    then show ?thesis
      using some len
      by (simp add: maybe_static_array_from_array_def holds_all_def with_dyn_vals_def)
  next
    case none
    then show ?thesis
      using none_dynamic [of Vs]
      by (simp add: maybe_static_array_from_array_def holds_all_def)
  qed
qed

lemma from_span_full:
  assumes "length vals = length Vs"
    and "assert_active B \<longrightarrow> (\<forall>k<length Vs. Vs ! k \<noteq> dynamic_extent \<longrightarrow>
            static_cast T (vals ! k) = static_cast T (int (Vs ! k)))"
    and "0 < length Vs"
  shows "\<exists>A. maybe_static_array_from_span B T Vs vals = Inr A \<and> holds_all T Vs vals A"
proof -
  have "maybe_static_array_from_span B T Vs vals = maybe_static_array_from_array B T Vs vals"
    using assms(1,3)
    by (simp add: maybe_static_array_from_span_def maybe_static_array_from_array_def)
  with from_array_full [OF assms(1,2)] show ?thesis by simp
qed

lemma from_span_rank_0:
  "extents_from_span B T [] [] = Inl Does_Not_Compile"
  by (simp add: extents_from_span_def maybe_static_array_from_span_def with_m_vals_def
      m_size_dynamic_def)

lemma from_scalars_full:
  assumes len: "length vals = length Vs"
    and ok: "assert_active B \<longrightarrow> (\<forall>k<length Vs. Vs ! k \<noteq> dynamic_extent \<longrightarrow>
            static_cast T (vals ! k) = static_cast T (int (Vs ! k)))"
  shows "\<exists>A. maybe_static_array_from_scalars B T Vs vals = Inr A \<and> holds_all T Vs vals A"
proof -
  consider (none) "m_size_dynamic Vs = 0"
    | (all) "m_size_dynamic Vs \<noteq> 0" "length vals = m_size_dynamic Vs"
    | (some) "m_size_dynamic Vs \<noteq> 0" "length vals \<noteq> m_size_dynamic Vs"
    by linarith
  then show ?thesis
  proof cases
    case none
    then show ?thesis
      using none_dynamic [of Vs]
      by (simp add: maybe_static_array_from_scalars_def holds_all_def)
  next
    case all
    then have "m_size_dynamic Vs = length Vs" using len by simp
    then have "\<forall>k<length Vs. dynamic_before Vs k = k" by (simp add: all_dynamic)
    then show ?thesis
      using all len by (simp add: maybe_static_array_from_scalars_def holds_all_def)
  next
    case some
    have "assert_active B \<longrightarrow> (\<forall>k<length Vs. Vs ! k \<noteq> dynamic_extent \<longrightarrow>
            map (static_cast T) vals ! k = static_cast T (int (Vs ! k)))"
      using ok len by simp
    from full_form_cells [OF _ this,
        of "''values[r] == static_cast<TDynamic>(static_val)''"]
    obtain dyn where
      "full_form_loop (assert_active B)
         ''values[r] == static_cast<TDynamic>(static_val)'' T Vs
         (map (static_cast T) vals) 0 (replicate (m_size_dynamic Vs) None) = Inr dyn"
      "length dyn = m_size_dynamic Vs"
      "\<forall>k<length Vs. Vs ! k = dynamic_extent \<longrightarrow>
              dyn ! dynamic_before Vs k = Some (map (static_cast T) vals ! k)"
      using len by auto
    then show ?thesis
      using some len
      by (simp add: maybe_static_array_from_scalars_def holds_all_def with_dyn_vals_def)
  qed
qed

lemma holds_all_extent:
  assumes "holds_all T Es vals A" "r < length Es"
  shows "extent \<lparr>m_vals = A\<rparr> r =
     Some (if Es ! r = dynamic_extent then static_cast T (vals ! r)
           else static_cast T (int (Es ! r)))"
  using assms extent_of_cells [of "\<lparr>m_vals = A\<rparr>" "\<lambda>k. static_cast T (vals ! k)" r]
  by (simp add: holds_all_def rank_def Extents_of_def index_type_def)

section \<open>Facts about the construction from the dynamic values\<close>

lemma from_scalars_dynamic:
  assumes "length vals = m_size_dynamic Es"
  shows "extents_from_scalars B T Es vals =
     Inr \<lparr>m_vals = \<lparr>TDynamic = T, Values = Es,
            m_dyn_vals = map (\<lambda>v. Some (static_cast T v)) vals\<rparr>\<rparr>"
  using assms
  by (auto simp add: extents_from_scalars_def maybe_static_array_from_scalars_def
      with_m_vals_def static_cast_idem comp_def)

lemma from_array_dynamic:
  assumes "length vals = m_size_dynamic Es"
  shows "extents_from_array B T Es vals =
     Inr \<lparr>m_vals = \<lparr>TDynamic = T, Values = Es,
            m_dyn_vals = map (\<lambda>v. Some (static_cast T v)) vals\<rparr>\<rparr>"
  using assms
  by (simp add: extents_from_array_def maybe_static_array_from_array_def with_m_vals_def)

lemma from_span_dynamic:
  assumes "length vals = m_size_dynamic Es" "0 < m_size_dynamic Es"
  shows "extents_from_span B T Es vals =
     Inr \<lparr>m_vals = \<lparr>TDynamic = T, Values = Es,
            m_dyn_vals = map (\<lambda>v. Some (static_cast T v)) vals\<rparr>\<rparr>"
  using assms
  by (simp add: extents_from_span_def maybe_static_array_from_span_def with_m_vals_def)

lemma from_span_no_dynamic:
  assumes "length vals = m_size_dynamic Es" "m_size_dynamic Es = 0"
  shows "extents_from_span B T Es vals = Inl Does_Not_Compile"
  using assms
  by (simp add: extents_from_span_def maybe_static_array_from_span_def with_m_vals_def)

lemma dynamic_cells_extent:
  assumes "length vals = m_size_dynamic Es" "r < length Es"
  shows "extent \<lparr>m_vals = \<lparr>TDynamic = T, Values = Es,
            m_dyn_vals = map (\<lambda>v. Some (static_cast T v)) vals\<rparr>\<rparr> r =
     Some (if Es ! r = dynamic_extent then static_cast T (vals ! dynamic_before Es r)
           else static_cast T (int (Es ! r)))"
proof -
  let ?E = "\<lparr>m_vals = \<lparr>TDynamic = T, Values = Es,
            m_dyn_vals = map (\<lambda>v. Some (static_cast T v)) vals\<rparr>\<rparr>"
  have "\<forall>k<rank ?E. Extents_of ?E ! k = dynamic_extent \<longrightarrow>
           m_dyn_vals (m_vals ?E) ! dynamic_before (Extents_of ?E) k =
             Some (static_cast T (vals ! dynamic_before Es k))"
    using assms(1) by (simp add: rank_def Extents_of_def dynamic_before_less)
  from extent_of_cells [of ?E "\<lambda>k. static_cast T (vals ! dynamic_before Es k)" r, OF _ this]
  show ?thesis
    using assms by (simp add: rank_def Extents_of_def index_type_def)
qed

section \<open>Facts about the comparison\<close>

lemma eq_loop_same:
  assumes "\<forall>k. r \<le> k \<and> k < rank L \<longrightarrow> (\<exists>a. extent L k = Some a \<and> extent R k = Some a)"
  shows "eq_loop L R r val = Some val"
  using assms
proof (induction "rank L - r" arbitrary: r val)
  case 0
  then have "\<not> r < rank L" by simp
  then show ?case by (subst eq_loop.simps) simp
next
  case (Suc n)
  then have r: "r < rank L" by simp
  with Suc.prems obtain a where a: "extent L r = Some a" "extent R r = Some a" by auto
  have "n = rank L - (r + 1)" using Suc.hyps(2) by simp
  moreover have "\<forall>k. r + 1 \<le> k \<and> k < rank L \<longrightarrow>
      (\<exists>a. extent L k = Some a \<and> extent R k = Some a)"
    using Suc.prems by simp
  ultimately have "eq_loop L R (r + 1) val = Some val" by (rule Suc.hyps(1))
  then show ?case
    using r a by (subst eq_loop.simps) (simp add: builtin_eq_def)
qed

section \<open>Facts about the converting constructor\<close>

lemma convert_loop_result:
  assumes "length vals = m_size_dynamic Es"
    and "\<forall>k<length Es. extent other k = Some (g k)"
  shows "\<exists>vals'. convert_loop T Es other r vals = Inr vals' \<and>
           length vals' = length vals \<and>
           (\<forall>k<length Es. Es ! k = dynamic_extent \<longrightarrow>
              vals' ! dynamic_before Es k =
                (if r \<le> k then Some (static_cast T (g k)) else vals ! dynamic_before Es k))"
  using assms(1)
proof (induction "length Es - r" arbitrary: r vals)
  case 0
  then have "\<not> r < length Es" by simp
  then show ?case by (subst convert_loop.simps) simp
next
  case (Suc n)
  then have r: "r < length Es" by simp
  have n: "n = length Es - (r + 1)" using Suc.hyps(2) by simp
  show ?case
  proof (cases "Es ! r = dynamic_extent")
    case True
    let ?s = "dynamic_before Es r"
    let ?vals1 = "vals[?s := Some (static_cast T (g r))]"
    have s: "?s < length vals" using r True Suc.prems by (simp add: dynamic_before_less)
    have "length ?vals1 = m_size_dynamic Es" using Suc.prems by simp
    from Suc.hyps(1) [OF n this]
    obtain vals' where d: "convert_loop T Es other (r + 1) ?vals1 = Inr vals'"
      "length vals' = length ?vals1"
      "\<forall>k<length Es. Es ! k = dynamic_extent \<longrightarrow>
              vals' ! dynamic_before Es k =
                (if r + 1 \<le> k then Some (static_cast T (g k))
                 else ?vals1 ! dynamic_before Es k)"
      by auto
    have step: "convert_loop T Es other r vals = Inr vals'"
      using r True s d(1) assms(2)
      by (subst convert_loop.simps)
         (simp add: static_value_def static_array_get_nth dyn_map_get_in_range)
    have "\<forall>k<length Es. Es ! k = dynamic_extent \<longrightarrow>
              vals' ! dynamic_before Es k =
                (if r \<le> k then Some (static_cast T (g k)) else vals ! dynamic_before Es k)"
    proof (intro allI impI)
      fix k assume k: "k < length Es" "Es ! k = dynamic_extent"
      consider "k < r" | "k = r" | "r < k" by linarith
      then show "vals' ! dynamic_before Es k =
                (if r \<le> k then Some (static_cast T (g k)) else vals ! dynamic_before Es k)"
      proof cases
        case 1
        then have "dynamic_before Es k < ?s" using k by (simp add: dynamic_before_strict)
        then show ?thesis using d(3) k 1 by simp
      next
        case 2
        then show ?thesis using d(3) k s by simp
      next
        case 3
        then show ?thesis using d(3) k by simp
      qed
    qed
    with step d(2) show ?thesis by simp
  next
    case False
    from Suc.hyps(1) [OF n Suc.prems]
    obtain vals' where d: "convert_loop T Es other (r + 1) vals = Inr vals'"
      "length vals' = length vals"
      "\<forall>k<length Es. Es ! k = dynamic_extent \<longrightarrow>
              vals' ! dynamic_before Es k =
                (if r + 1 \<le> k then Some (static_cast T (g k))
                 else vals ! dynamic_before Es k)"
      by auto
    have step: "convert_loop T Es other r vals = Inr vals'"
      using r False d(1)
      by (subst convert_loop.simps) (simp add: static_value_def static_array_get_nth)
    have "\<forall>k<length Es. Es ! k = dynamic_extent \<longrightarrow>
              vals' ! dynamic_before Es k =
                (if r \<le> k then Some (static_cast T (g k)) else vals ! dynamic_before Es k)"
      using d(3) False by (auto simp: le_less Suc_le_eq)
    with step d(2) show ?thesis by simp
  qed
qed

lemma those_all_Some:
  "(\<forall>i<length xs. \<exists>v. xs ! i = Some v) \<Longrightarrow> those xs = Some (map the xs)"
proof (induction xs)
  case Nil
  then show ?case by simp
next
  case (Cons a xs)
  from Cons.prems have "\<exists>v. (a # xs) ! 0 = Some v" by blast
  then obtain v where a: "a = Some v" by auto
  have "\<forall>i<length xs. \<exists>v. xs ! i = Some v"
  proof (intro allI impI)
    fix i assume "i < length xs"
    then have "Suc i < length (a # xs)" by simp
    with Cons.prems have "\<exists>v. (a # xs) ! Suc i = Some v" by blast
    then show "\<exists>v. xs ! i = Some v" by simp
  qed
  from Cons.IH [OF this] a show ?case by simp
qed

lemma extents_convert_result:
  assumes wf: "well_formed other" and conv: "convertible Es (Extents_of other)"
  shows "\<exists>E. extents_convert T Es other = Inr E \<and> index_type E = T \<and> Extents_of E = Es \<and>
     (\<forall>r<length Es. extent E r =
        (if Es ! r = dynamic_extent then map_option (static_cast T) (extent other r)
         else Some (static_cast T (int (Es ! r)))))"
proof -
  let ?g = "\<lambda>k. the (extent other k)"
  have rk: "rank other = length Es" using conv by (simp add: convertible_def rank_def)
  have g: "\<forall>k<length Es. extent other k = Some (?g k)"
  proof (intro allI impI)
    fix k assume "k < length Es"
    then have "k < rank other" using rk by simp
    from well_formed_extent [OF wf this] show "extent other k = Some (?g k)" by auto
  qed
  show ?thesis
  proof (cases "0 < m_size_dynamic Es")
    case False
    let ?E = "\<lparr>m_vals = maybe_static_array_default Default_Initialization T Es\<rparr>"
    have "extents_convert T Es other = Inr ?E"
      using False conv by (simp add: extents_convert_def)
    moreover have "\<forall>r<length Es. extent ?E r = Some (static_cast T (int (Es ! r)))"
      using False none_dynamic [of Es]
      by (simp add: extent_in_range rank_def Extents_of_def index_type_def
          maybe_static_array_default_def)
    moreover have "\<forall>r<length Es. Es ! r \<noteq> dynamic_extent"
      using False none_dynamic [of Es] by simp
    ultimately show ?thesis
      by (simp add: index_type_def Extents_of_def maybe_static_array_default_def)
  next
    case True
    from convert_loop_result [OF _ g, of "replicate (m_size_dynamic Es) None" T 0]
    obtain vals where v: "convert_loop T Es other 0 (replicate (m_size_dynamic Es) None)
        = Inr vals"
      "length vals = m_size_dynamic Es"
      "\<forall>k<length Es. Es ! k = dynamic_extent \<longrightarrow>
          vals ! dynamic_before Es k = Some (static_cast T (?g k))"
      by auto
    have all: "\<forall>i<length vals. \<exists>x. vals ! i = Some x"
    proof (intro allI impI)
      fix i assume "i < length vals"
      then have "i < m_size_dynamic Es" using v(2) by simp
      from dynamic_before_surj [OF this] v(3) show "\<exists>x. vals ! i = Some x" by auto
    qed
    let ?E = "\<lparr>m_vals = \<lparr>TDynamic = T, Values = Es,
        m_dyn_vals = map (\<lambda>v. Some (static_cast T v)) (map the vals)\<rparr>\<rparr>"
    have res: "extents_convert T Es other = Inr ?E"
      using True conv v(1) those_all_Some [OF all] by (simp add: extents_convert_def)
    have cells: "\<forall>k<rank ?E. Extents_of ?E ! k = dynamic_extent \<longrightarrow>
        m_dyn_vals (m_vals ?E) ! dynamic_before (Extents_of ?E) k = Some (static_cast T (?g k))"
      using v(2,3)
      by (simp add: rank_def Extents_of_def dynamic_before_less static_cast_idem)
    have "\<forall>r<length Es. extent ?E r =
        (if Es ! r = dynamic_extent then map_option (static_cast T) (extent other r)
         else Some (static_cast T (int (Es ! r))))"
    proof (intro allI impI)
      fix r assume r: "r < length Es"
      then have "r < rank ?E" by (simp add: rank_def Extents_of_def)
      moreover from g r obtain x where "extent other r = Some x" by blast
      moreover note extent_of_cells [of ?E "\<lambda>k. static_cast T (?g k)" r, OF _ cells] v(2)
      ultimately show "extent ?E r =
        (if Es ! r = dynamic_extent then map_option (static_cast T) (extent other r)
         else Some (static_cast T (int (Es ! r))))"
        by (simp add: Extents_of_def index_type_def)
    qed
    with res show ?thesis by (simp add: index_type_def Extents_of_def)
  qed
qed

section \<open>Facts about the round trip\<close>

lemma holds_all_same:
  assumes wf: "well_formed D"
    and A: "holds_all (index_type D) (Extents_of D) vals A"
    and vals: "\<forall>k<rank D. static_cast (index_type D) (vals ! k) = the (extent D k)"
  shows "\<lparr>m_vals = A\<rparr> = D"
proof -
  let ?Es = "Extents_of D"
  have len: "length (m_dyn_vals A) = length (m_dyn_vals (m_vals D))"
    using wf A by (simp add: holds_all_def well_formed_def rank_dynamic_def)
  have "m_dyn_vals A ! i = m_dyn_vals (m_vals D) ! i" if "i < length (m_dyn_vals A)" for i
  proof -
    have "i < m_size_dynamic ?Es" using that A by (simp add: holds_all_def)
    from dynamic_before_surj [OF this] obtain k where
      k: "k < length ?Es" "?Es ! k = dynamic_extent" "dynamic_before ?Es k = i" by blast
    have kr: "k < rank D" using k(1) by (simp add: rank_def)
    from well_formed_extent [OF wf kr] obtain v where v: "extent D k = Some v" by blast
    have "m_dyn_vals (m_vals D) ! i = Some v"
      using v k kr that len
      by (auto simp add: extent_in_range possibly_empty_array_get_def split: if_splits)
    moreover have "m_dyn_vals A ! dynamic_before ?Es k =
        Some (static_cast (index_type D) (vals ! k))"
      using A k(1,2) by (simp add: holds_all_def)
    then have "m_dyn_vals A ! i = Some (the (extent D k))"
      unfolding k(3) using vals kr by simp
    then have "m_dyn_vals A ! i = Some v" using v by simp
    ultimately show ?thesis by simp
  qed
  with len have "m_dyn_vals A = m_dyn_vals (m_vals D)" by (simp add: nth_equalityI)
  moreover have "TDynamic A = TDynamic (m_vals D)" "Values A = Values (m_vals D)"
    using A by (simp_all add: holds_all_def index_type_def Extents_of_def)
  ultimately have "A = m_vals D" by simp
  then show ?thesis by simp
qed

lemma extents_eq_refl:
  assumes "well_formed D"
  shows "extents_eq D D = Some True"
proof -
  have "\<forall>k. 0 \<le> k \<and> k < rank D \<longrightarrow> (\<exists>a. extent D k = Some a \<and> extent D k = Some a)"
    using well_formed_extent [OF assms] by blast
  then show ?thesis unfolding extents_eq_def by (rule eq_loop_same)
qed

section \<open>Claims\<close>

text \<open>
  C10.  The claim: for every tag sequence and every \<open>r\<close> in \<open>[0, rank]\<close> the slot
  \<open>dyn_map_t::get(r)\<close> is the number of dynamic tags strictly before \<open>r\<close>, and in
  particular the slot of \<open>rank\<close> is the number of dynamic tags.  The code computes the
  count for every \<open>r\<close> below the rank (lemma \<open>dyn_map_get_in_range\<close>), but the
  specialisation for the last tag tests \<open>R > r\<close> where the general case tests
  \<open>r > R\<close>, so the last flag is never added: for the single tag \<open>dynamic_extent\<close>
  the slot of \<open>r = rank = 1\<close> is 0 while one tag is dynamic.
\<close>

theorem C10_slot_of_rank_misses_last_tag:
  "dyn_map_get [dynamic_extent] 1 = 0 \<and>
   m_size_dynamic [dynamic_extent] = 1 \<and>
   dynamic_before [dynamic_extent] 1 = 1 \<and>
   dyn_map_get [3, dynamic_extent] 2 = 0 \<and>
   m_size_dynamic [3, dynamic_extent] = 1"
  by (simp add: dyn_map_get_def m_size_dynamic_def dynamic_before_def dyn_flag_def
      dynamic_extent_def)

text \<open>
  C1.  For every descriptor, whatever its storage holds and so whichever constructor
  built it, and every dimension \<open>r\<close> below the rank: when the tag \<open>static_extent(r)\<close>
  is not the dynamic sentinel, \<open>extent(r)\<close> is defined and is the tag converted to the
  index type.
\<close>

theorem C1_static_dimension_fixed:
  assumes "r < rank E" and "static_extent E r \<noteq> dynamic_extent"
  shows "extent E r = Some (static_cast (index_type E) (int (static_extent E r)))"
  using assms
  by (simp add: extent_def maybe_static_array_value_def Let_def static_extent_def
      static_value_def Extents_of_def index_type_def)

theorem C1_static_dimension_fixed_witness:
  "extent (extents_default Default_Initialization (Int_Type True 32) [dynamic_extent, 7]) 1
     = Some 7 \<and>
   static_extent (extents_default Default_Initialization (Int_Type True 32)
     [dynamic_extent, 7]) 1 = 7"
proof -
  let ?E = "extents_default Default_Initialization (Int_Type True 32) [dynamic_extent, 7]"
  have r: "1 < rank ?E"
    by (simp add: rank_def Extents_of_def extents_default_def maybe_static_array_default_def)
  have s: "static_extent ?E 1 = 7"
    by (simp add: static_extent_def static_value_def static_array_get_def Extents_of_def
        extents_default_def maybe_static_array_default_def)
  have t: "static_extent ?E 1 \<noteq> dynamic_extent"
    unfolding s by (simp add: dynamic_extent_def)
  have i: "index_type ?E = Int_Type True 32"
    by (simp add: index_type_def extents_default_def maybe_static_array_default_def)
  from C1_static_dimension_fixed [OF r t] s show ?thesis
    by (simp add: i static_cast_def)
qed

text \<open>
  C9.  Given as many values as there are dynamic dimensions, the constructors from
  scalars and from an array succeed in every build, without any check, and build the
  same descriptor: its cells are the values in their order, converted to the index
  type, so that its extent at a dynamic dimension \<open>r\<close> is the value whose position
  among the arguments is the number of dynamic dimensions before \<open>r\<close>, and at a
  static dimension the tag.  The constructor from a span builds that descriptor too
  when there is a dynamic dimension, and does not compile when there is none.  The
  witness is the concrete case of the claim: tags \<open>(1, dynamic, 3, dynamic)\<close> built
  from \<open>(3, 4)\<close> have the extents 1, 3, 3, 4.
\<close>

theorem C9_rank_dynamic_form:
  assumes "length vals = m_size_dynamic Es"
  shows "\<exists>E.
      extents_from_scalars B T Es vals = Inr E \<and>
      extents_from_array B T Es vals = Inr E \<and>
      extents_from_span B T Es vals =
        (if 0 < m_size_dynamic Es then Inr E else Inl Does_Not_Compile) \<and>
      index_type E = T \<and> Extents_of E = Es \<and>
      m_dyn_vals (m_vals E) = map (\<lambda>v. Some (static_cast T v)) vals \<and>
      (\<forall>r<length Es. extent E r =
          Some (if Es ! r = dynamic_extent then static_cast T (vals ! dynamic_before Es r)
                else static_cast T (int (Es ! r))))"
proof -
  let ?E = "\<lparr>m_vals = \<lparr>TDynamic = T, Values = Es,
            m_dyn_vals = map (\<lambda>v. Some (static_cast T v)) vals\<rparr>\<rparr>"
  have "extents_from_scalars B T Es vals = Inr ?E"
    by (rule from_scalars_dynamic [OF assms])
  moreover have "extents_from_array B T Es vals = Inr ?E"
    by (rule from_array_dynamic [OF assms])
  moreover have "extents_from_span B T Es vals =
        (if 0 < m_size_dynamic Es then Inr ?E else Inl Does_Not_Compile)"
    using from_span_dynamic [OF assms] from_span_no_dynamic [OF assms] by simp
  moreover have "\<forall>r<length Es. extent ?E r =
          Some (if Es ! r = dynamic_extent then static_cast T (vals ! dynamic_before Es r)
                else static_cast T (int (Es ! r)))"
    using dynamic_cells_extent [OF assms] by blast
  ultimately show ?thesis
    by (intro exI [of _ ?E]) (simp add: index_type_def Extents_of_def)
qed

theorem C9_rank_dynamic_form_witness:
  "\<exists>E. extents_from_scalars
          \<lparr>mdspan_debug = True, ndebug = False, libcpp_enable_assertions = True\<rparr>
          (Int_Type True 32) [1, dynamic_extent, 3, dynamic_extent] [3, 4] = Inr E \<and>
        extents_from_span
          \<lparr>mdspan_debug = True, ndebug = False, libcpp_enable_assertions = True\<rparr>
          (Int_Type True 32) [1, dynamic_extent, 3, dynamic_extent] [3, 4] = Inr E \<and>
        m_dyn_vals (m_vals E) = [Some 3, Some 4] \<and>
        extent E 0 = Some 1 \<and> extent E 1 = Some 3 \<and> extent E 2 = Some 3 \<and>
        extent E 3 = Some 4"
proof -
  let ?Es = "[1, dynamic_extent, 3, dynamic_extent]"
  let ?B = "\<lparr>mdspan_debug = True, ndebug = False, libcpp_enable_assertions = True\<rparr>"
  have pos: "0 < m_size_dynamic ?Es"
    by (simp add: m_size_dynamic_def dyn_flag_def dynamic_extent_def)
  have len: "length [3, 4 :: int] = m_size_dynamic ?Es"
    by (simp add: m_size_dynamic_def dyn_flag_def dynamic_extent_def)
  from C9_rank_dynamic_form [OF len, of ?B "Int_Type True 32"]
  obtain E where E: "extents_from_scalars ?B (Int_Type True 32) ?Es [3, 4] = Inr E"
    and S: "extents_from_span ?B (Int_Type True 32) ?Es [3, 4] =
        (if 0 < m_size_dynamic ?Es then Inr E else Inl Does_Not_Compile)"
    and cells: "m_dyn_vals (m_vals E) =
        map (\<lambda>v. Some (static_cast (Int_Type True 32) v)) [3, 4]"
    and ext: "\<forall>r<length ?Es. extent E r =
          Some (if ?Es ! r = dynamic_extent
                then static_cast (Int_Type True 32) ([3, 4] ! dynamic_before ?Es r)
                else static_cast (Int_Type True 32) (int (?Es ! r)))"
    by blast
  have d: "(1::nat) \<noteq> dynamic_extent" "(3::nat) \<noteq> dynamic_extent"
    by (simp_all add: dynamic_extent_def)
  have "extents_from_span ?B (Int_Type True 32) ?Es [3, 4] = Inr E"
    using S pos by simp
  moreover have "m_dyn_vals (m_vals E) = [Some 3, Some 4]"
    using cells by (simp add: static_cast_def)
  moreover have "extent E 0 = Some 1"
    using ext [rule_format, of 0] d by (simp add: static_cast_def)
  moreover have "extent E 1 = Some 3"
    using ext [rule_format, of 1] d by (simp add: static_cast_def dynamic_before_def)
  moreover have "extent E 2 = Some 3"
    using ext [rule_format, of 2] d by (simp add: static_cast_def)
  moreover have "extent E 3 = Some 4"
    using ext [rule_format, of 3] d
    by (simp add: static_cast_def dynamic_before_def numeral_3_eq_3)
  ultimately show ?thesis using E by simp
qed

text \<open>
  C2.  Round trip.  For a descriptor \<open>D\<close> whose dynamic cells all hold values of its
  index type, the sequence \<open>extent(0), ..., extent(rank - 1)\<close> can be read, and the
  construction of a descriptor of the same type from that sequence in the full form
  succeeds in every build, from scalars and from an array: the descriptor built has
  the index type, the tags and the cells of \<open>D\<close>, hence the same extent at every
  dimension, and \<open>operator==\<close> is true of the two in either order.  From a span the
  same holds for every rank but 0, where the constructor from a span does not compile.
\<close>

theorem C2_round_trip:
  assumes "well_formed D"
  shows "\<exists>vs D'.
      extent_list D = Some vs \<and> length vs = rank D \<and>
      extents_from_scalars B (index_type D) (Extents_of D) vs = Inr D' \<and>
      extents_from_array B (index_type D) (Extents_of D) vs = Inr D' \<and>
      extents_from_span B (index_type D) (Extents_of D) vs =
        (if 0 < rank D then Inr D' else Inl Does_Not_Compile) \<and>
      D' = D \<and>
      index_type D' = index_type D \<and> Extents_of D' = Extents_of D \<and>
      (\<forall>r<rank D. extent D' r = extent D r \<and> extent D' r = Some (vs ! r)) \<and>
      extents_eq D' D = Some True \<and> extents_eq D D' = Some True"
proof -
  let ?T = "index_type D" and ?Es = "Extents_of D"
  let ?vs = "map (\<lambda>r. the (extent D r)) [0..<rank D]"
  have list: "extent_list D = Some ?vs" by (rule well_formed_extent_list [OF assms])
  have len: "length ?vs = length ?Es" by (simp add: rank_def)
  have same: "static_cast ?T (?vs ! k) = the (extent D k)" if "k < rank D" for k
    using well_formed_extent [OF assms that] that by auto
  have nth: "extent D k = Some (?vs ! k)" if "k < rank D" for k
    using well_formed_extent [OF assms that] that by auto
  have tag: "static_cast ?T (?vs ! k) = static_cast ?T (int (?Es ! k))"
    if "k < length ?Es" "?Es ! k \<noteq> dynamic_extent" for k
    using that by (simp add: rank_def extent_in_range static_cast_idem)
  have ok: "assert_active B \<longrightarrow> (\<forall>k<length ?Es. ?Es ! k \<noteq> dynamic_extent \<longrightarrow>
      static_cast ?T (?vs ! k) = static_cast ?T (int (?Es ! k)))"
    using tag by blast
  have len': "length (map (static_cast ?T) ?vs) = length ?Es" by (simp add: rank_def)
  have ok': "assert_active B \<longrightarrow> (\<forall>k<length ?Es. ?Es ! k \<noteq> dynamic_extent \<longrightarrow>
      static_cast ?T (map (static_cast ?T) ?vs ! k) = static_cast ?T (int (?Es ! k)))"
    using tag by (simp add: rank_def static_cast_idem)
  have v1: "\<forall>k<rank D. static_cast ?T (map (static_cast ?T) ?vs ! k) = the (extent D k)"
    using same by (simp add: static_cast_idem)
  have v2: "\<forall>k<rank D. static_cast ?T (?vs ! k) = the (extent D k)"
    using same by blast
  from from_scalars_full [OF len' ok'] obtain A1 where
    A1: "maybe_static_array_from_scalars B ?T ?Es (map (static_cast ?T) ?vs) = Inr A1"
      "holds_all ?T ?Es (map (static_cast ?T) ?vs) A1" by blast
  from from_array_full [OF len ok] obtain A2 where
    A2: "maybe_static_array_from_array B ?T ?Es ?vs = Inr A2" "holds_all ?T ?Es ?vs A2"
    by blast
  have scalars: "extents_from_scalars B ?T ?Es ?vs = Inr D"
    using A1(1) len holds_all_same [OF assms A1(2) v1]
    by (simp add: extents_from_scalars_def with_m_vals_def)
  have array: "extents_from_array B ?T ?Es ?vs = Inr D"
    using A2(1) len holds_all_same [OF assms A2(2) v2]
    by (simp add: extents_from_array_def with_m_vals_def)
  have span: "extents_from_span B ?T ?Es ?vs =
        (if 0 < rank D then Inr D else Inl Does_Not_Compile)"
  proof (cases "0 < rank D")
    case True
    then have pos: "0 < length ?Es" by (simp add: rank_def)
    from from_span_full [OF len ok pos] obtain A3 where
      A3: "maybe_static_array_from_span B ?T ?Es ?vs = Inr A3" "holds_all ?T ?Es ?vs A3"
      by blast
    then show ?thesis
      using True len holds_all_same [OF assms A3(2) v2]
      by (simp add: extents_from_span_def with_m_vals_def)
  next
    case False
    then have "?Es = []" by (simp add: rank_def)
    with False show ?thesis by (simp add: from_span_rank_0)
  qed
  have "\<forall>r<rank D. extent D r = extent D r \<and> extent D r = Some (?vs ! r)"
    using nth by blast
  with list scalars array span extents_eq_refl [OF assms] show ?thesis
    by (intro exI [of _ ?vs] exI [of _ D]) (simp add: rank_def)
qed

theorem C2_round_trip_witness:
  "\<exists>D'. extents_from_scalars
           \<lparr>mdspan_debug = True, ndebug = False, libcpp_enable_assertions = True\<rparr>
           (Int_Type True 32) [dynamic_extent, 7] [5, 7] = Inr D' \<and>
         extents_from_span
           \<lparr>mdspan_debug = True, ndebug = False, libcpp_enable_assertions = True\<rparr>
           (Int_Type True 32) [dynamic_extent, 7] [5, 7] = Inr D' \<and>
         D' = \<lparr>m_vals = \<lparr>TDynamic = Int_Type True 32, Values = [dynamic_extent, 7],
              m_dyn_vals = [Some 5]\<rparr>\<rparr> \<and>
         extent D' 0 = Some 5 \<and> extent D' 1 = Some 7 \<and>
         extents_eq D'
           \<lparr>m_vals = \<lparr>TDynamic = Int_Type True 32, Values = [dynamic_extent, 7],
              m_dyn_vals = [Some 5]\<rparr>\<rparr> = Some True"
proof -
  let ?D = "\<lparr>m_vals = \<lparr>TDynamic = Int_Type True 32, Values = [dynamic_extent, 7],
              m_dyn_vals = [Some 5]\<rparr>\<rparr>"
  let ?B = "\<lparr>mdspan_debug = True, ndebug = False, libcpp_enable_assertions = True\<rparr>"
  have l: "extent_list ?D = Some [5, 7]"
    by (simp add: extent_list_def rank_def Extents_of_def upt_rec [of 0] upt_rec [of 1]
        extent_def maybe_static_array_value_def static_array_get_def dyn_map_get_def
        dyn_flag_def possibly_empty_array_get_def dynamic_extent_def static_cast_def)
  have r: "0 < rank ?D" by (simp add: rank_def Extents_of_def)
  from C2_round_trip [OF eval_extent_D7(1), of ?B] l r eval_extent_D7(2,3) show ?thesis
    by (auto simp add: index_type_def Extents_of_def)
qed

text \<open>
  C4.  The converting constructor, applied to a descriptor \<open>other\<close> whose dynamic cells
  hold values of its index type and whose tags satisfy the constraint of the
  constructor (equal rank, no two different static tags at one dimension), builds a
  descriptor: at every dimension with a dynamic destination tag its extent is the
  extent of \<open>other\<close> converted to the destination index type, and at every dimension
  with a static destination tag it is the tag.  The witness holds the concrete case of
  the claim, tags \<open>(5, 7)\<close> built from tags \<open>(dynamic, 7)\<close> with extents
  \<open>(5, 7)\<close>, and a conversion to two dynamic dimensions of another index type.
\<close>

theorem C4_converting_constructor:
  assumes "well_formed other" and "convertible Es (Extents_of other)"
  shows "\<exists>E. extents_convert T Es other = Inr E \<and>
     (\<forall>r<length Es. Es ! r = dynamic_extent \<longrightarrow>
        (\<exists>v. extent other r = Some v \<and> extent E r = Some (static_cast T v))) \<and>
     (\<forall>r<length Es. Es ! r \<noteq> dynamic_extent \<longrightarrow>
        extent E r = Some (static_cast T (int (Es ! r))))"
proof -
  from extents_convert_result [OF assms, of T] obtain E where
    E: "extents_convert T Es other = Inr E"
    and ext: "\<forall>r<length Es. extent E r =
        (if Es ! r = dynamic_extent then map_option (static_cast T) (extent other r)
         else Some (static_cast T (int (Es ! r))))"
    by blast
  have "\<exists>v. extent other r = Some v \<and> extent E r = Some (static_cast T v)"
    if "r < length Es" "Es ! r = dynamic_extent" for r
  proof -
    have "r < rank other" using that(1) assms(2) by (simp add: convertible_def rank_def)
    from well_formed_extent [OF assms(1) this] obtain v where "extent other r = Some v"
      by blast
    with ext that show ?thesis by simp
  qed
  with E ext show ?thesis by auto
qed

theorem C4_converting_constructor_witness:
  "(\<exists>E. extents_convert (Int_Type True 32) [5, 7]
          \<lparr>m_vals = \<lparr>TDynamic = Int_Type True 32, Values = [dynamic_extent, 7],
             m_dyn_vals = [Some 5]\<rparr>\<rparr> = Inr E \<and>
        extent E 0 = Some 5 \<and> extent E 1 = Some 7) \<and>
   (\<exists>E. extents_convert (Int_Type False 64) [dynamic_extent, dynamic_extent]
          \<lparr>m_vals = \<lparr>TDynamic = Int_Type True 32, Values = [dynamic_extent, 7],
             m_dyn_vals = [Some 5]\<rparr>\<rparr> = Inr E \<and>
        extent E 0 = Some 5 \<and> extent E 1 = Some 7)"
proof -
  let ?A = "\<lparr>m_vals = \<lparr>TDynamic = Int_Type True 32, Values = [dynamic_extent, 7],
             m_dyn_vals = [Some 5]\<rparr>\<rparr>"
  have d: "(5::nat) \<noteq> dynamic_extent" "(7::nat) \<noteq> dynamic_extent"
    by (simp_all add: dynamic_extent_def)
  have c1: "convertible [5, 7] (Extents_of ?A)"
    by (simp add: convertible_def Extents_of_def)
  have c2: "convertible [dynamic_extent, dynamic_extent] (Extents_of ?A)"
    by (simp add: convertible_def Extents_of_def)
  from C4_converting_constructor [OF eval_extent_D7(1) c1, of "Int_Type True 32"]
  obtain E1 where E1: "extents_convert (Int_Type True 32) [5, 7] ?A = Inr E1"
    "\<forall>r<length [5::nat, 7]. [5, 7] ! r \<noteq> dynamic_extent \<longrightarrow>
        extent E1 r = Some (static_cast (Int_Type True 32) (int ([5, 7] ! r)))"
    by blast
  have "extent E1 0 = Some 5" using E1(2) [rule_format, of 0] d by (simp add: static_cast_def)
  moreover have "extent E1 1 = Some 7"
    using E1(2) [rule_format, of 1] d by (simp add: static_cast_def)
  moreover
  from C4_converting_constructor [OF eval_extent_D7(1) c2, of "Int_Type False 64"]
  obtain E2 where E2:
    "extents_convert (Int_Type False 64) [dynamic_extent, dynamic_extent] ?A = Inr E2"
    "\<forall>r<length [dynamic_extent, dynamic_extent].
        [dynamic_extent, dynamic_extent] ! r = dynamic_extent \<longrightarrow>
        (\<exists>v. extent ?A r = Some v \<and> extent E2 r = Some (static_cast (Int_Type False 64) v))"
    by blast
  have "extent E2 0 = Some 5"
    using E2(2) [rule_format, of 0] eval_extent_D7(2) by (simp add: static_cast_def)
  moreover have "extent E2 1 = Some 7"
    using E2(2) [rule_format, of 1] eval_extent_D7(3) by (simp add: static_cast_def)
  ultimately show ?thesis using E1(1) E2(1) by simp
qed

text \<open>
  C8.  The claim: under a checked build, building tags \<open>(5, dynamic)\<close> from a source
  whose extent at dimension 0 is 4 fails with a mismatch of the static extent.  The
  converting constructor contains no check and no build macro: from the source with
  tags \<open>(dynamic, dynamic)\<close> and extents \<open>(4, 9)\<close> it builds a descriptor with
  extents \<open>(5, 9)\<close>.
\<close>

theorem C8_counterexample:
  "extents_convert (Int_Type True 32) [5, dynamic_extent]
     \<lparr>m_vals = \<lparr>TDynamic = Int_Type True 32, Values = [dynamic_extent, dynamic_extent],
        m_dyn_vals = [Some 4, Some 9]\<rparr>\<rparr>
   = Inr \<lparr>m_vals = \<lparr>TDynamic = Int_Type True 32, Values = [5, dynamic_extent],
        m_dyn_vals = [Some 9]\<rparr>\<rparr> \<and>
   \<not> (\<exists>f. extents_convert (Int_Type True 32) [5, dynamic_extent]
     \<lparr>m_vals = \<lparr>TDynamic = Int_Type True 32, Values = [dynamic_extent, dynamic_extent],
        m_dyn_vals = [Some 4, Some 9]\<rparr>\<rparr> = Inl f)"
proof -
  have "extents_convert (Int_Type True 32) [5, dynamic_extent]
     \<lparr>m_vals = \<lparr>TDynamic = Int_Type True 32, Values = [dynamic_extent, dynamic_extent],
        m_dyn_vals = [Some 4, Some 9]\<rparr>\<rparr>
   = Inr \<lparr>m_vals = \<lparr>TDynamic = Int_Type True 32, Values = [5, dynamic_extent],
        m_dyn_vals = [Some 9]\<rparr>\<rparr>"
    by (simp add: extents_convert_def convertible_def Extents_of_def m_size_dynamic_def
        dyn_flag_def convert_loop.simps static_value_def static_array_get_def dyn_map_get_def
        extent_def maybe_static_array_value_def possibly_empty_array_get_def
        static_cast_def dynamic_extent_def)
  then show ?thesis by simp
qed

text \<open>
  C8, as amended.  In every build, building tags \<open>(5, dynamic)\<close> from a descriptor
  that the constructor accepts and whose extent at dimension 0 is 4 succeeds without
  any validation of dimension 0: the new descriptor has the tag 5 at dimension 0 and
  the source's extent, converted to the destination index type, at dimension 1.
\<close>

theorem C8_conversion_not_validated:
  assumes "well_formed S" and "convertible [5, dynamic_extent] (Extents_of S)"
    and "extent S 0 = Some 4"
  shows "\<exists>E v. extents_convert T [5, dynamic_extent] S = Inr E \<and>
           extent E 0 = Some (static_cast T 5) \<and>
           extent S 1 = Some v \<and> extent E 1 = Some (static_cast T v)"
proof -
  from extents_convert_result [OF assms(1,2), of T] obtain E where
    E: "extents_convert T [5, dynamic_extent] S = Inr E"
    and ext: "\<forall>r<length [5, dynamic_extent]. extent E r =
        (if [5, dynamic_extent] ! r = dynamic_extent
         then map_option (static_cast T) (extent S r)
         else Some (static_cast T (int ([5, dynamic_extent] ! r))))"
    by blast
  have "1 < rank S" using assms(2) by (simp add: convertible_def rank_def)
  from well_formed_extent [OF assms(1) this] obtain v where v: "extent S 1 = Some v"
    by blast
  have "extent E 0 = Some (static_cast T 5)"
    using ext [rule_format, of 0] by (simp add: dynamic_extent_def)
  moreover have "extent E 1 = Some (static_cast T v)"
    using ext [rule_format, of 1] v by simp
  ultimately show ?thesis using E v by simp
qed

theorem C8_conversion_not_validated_witness:
  "\<exists>E. extents_convert (Int_Type True 32) [5, dynamic_extent]
          \<lparr>m_vals = \<lparr>TDynamic = Int_Type True 32,
             Values = [dynamic_extent, dynamic_extent],
             m_dyn_vals = [Some 4, Some 9]\<rparr>\<rparr> = Inr E \<and>
        extent E 0 = Some 5 \<and> extent E 1 = Some 9"
proof -
  let ?S = "\<lparr>m_vals = \<lparr>TDynamic = Int_Type True 32,
             Values = [dynamic_extent, dynamic_extent],
             m_dyn_vals = [Some 4, Some 9]\<rparr>\<rparr>"
  have c: "convertible [5, dynamic_extent] (Extents_of ?S)"
    by (simp add: convertible_def Extents_of_def)
  from C8_conversion_not_validated [OF eval_extent_DD(1) c eval_extent_DD(2),
      of "Int_Type True 32"] eval_extent_DD(3)
  show ?thesis by (auto simp add: static_cast_def)
qed

text \<open>
  C3.  The claim: \<open>operator==\<close> is true iff the ranks match and every extent of the
  left operand equals the extent of the right operand converted to the left index
  type; with different ranks the result is false.  The operator of the header has no
  test of the ranks and runs its loop over the dimensions of the left operand: a
  descriptor of rank 0 compares equal to a descriptor of rank 1, and tags \<open>(5, 5)\<close>
  compare equal to the tag \<open>(5)\<close>, whose \<open>extent(1)\<close> is read past its rank.  It also
  compares with the built-in \<open>==\<close>, not after a conversion to the left index type:
  the extent 5 of a descriptor with an 8-bit index type differs from the extent 261 of
  a descriptor with a 32-bit index type, although 261 converts to 5.
\<close>

theorem C3_equality_ignores_rank:
  "extents_eq (extents_default Value_Initialization (Int_Type True 32) [])
              (extents_default Value_Initialization (Int_Type True 32) [5]) = Some True \<and>
   rank (extents_default Value_Initialization (Int_Type True 32) []) = 0 \<and>
   rank (extents_default Value_Initialization (Int_Type True 32) [5]) = 1 \<and>
   extents_eq (extents_default Value_Initialization (Int_Type True 32) [5, 5])
              (extents_default Value_Initialization (Int_Type True 32) [5]) = Some True \<and>
   extents_eq
     \<lparr>m_vals = \<lparr>TDynamic = Int_Type True 8, Values = [dynamic_extent],
        m_dyn_vals = [Some 5]\<rparr>\<rparr>
     \<lparr>m_vals = \<lparr>TDynamic = Int_Type True 32, Values = [dynamic_extent],
        m_dyn_vals = [Some 261]\<rparr>\<rparr> = Some False \<and>
   static_cast (Int_Type True 8) 261 = 5"
  by (simp add: extents_eq_def eq_loop.simps rank_def Extents_of_def index_type_def
      extents_default_def maybe_static_array_default_def m_size_dynamic_def dyn_flag_def
      extent_def maybe_static_array_value_def static_array_get_def dyn_map_get_def
      possibly_empty_array_get_def builtin_eq_def common_type_def promote_def
      static_cast_def dynamic_extent_def)

text \<open>
  C5.  The claim: the default constructor leaves every dynamic dimension at zero and
  every static dimension at its tag.  The constructor is defaulted and the array of
  dynamic cells has no initialiser, so the constructor writes no cell: the cells are
  zero only when the object is value-initialised.  For a default-initialised
  descriptor with one dynamic dimension the cell is indeterminate and \<open>extent(0)\<close>
  reads it; the static dimension is its tag in both cases.
\<close>

theorem C5_default_initialised_cell_indeterminate:
  "extent (extents_default Default_Initialization (Int_Type True 32) [dynamic_extent, 7]) 0
     = None \<and>
   extent (extents_default Default_Initialization (Int_Type True 32) [dynamic_extent, 7]) 1
     = Some 7 \<and>
   extent (extents_default Value_Initialization (Int_Type True 32) [dynamic_extent, 7]) 0
     = Some 0 \<and>
   extent (extents_default Value_Initialization (Int_Type True 32) [dynamic_extent, 7]) 1
     = Some 7"
  by (simp add: extents_default_def maybe_static_array_default_def m_size_dynamic_def
      dyn_flag_def extent_def maybe_static_array_value_def static_array_get_def
      dyn_map_get_def possibly_empty_array_get_def static_cast_def dynamic_extent_def)

text \<open>
  C6.  The claim: under a build with assertions enabled, a full-form construction whose
  value at a static dimension differs from the tag aborts with the diagnostic
  "extents construction: mismatch of provided arguments with static extents.".  The
  header compiles its check only under \<open>_MDSPAN_DEBUG\<close> and writes it as a plain
  \<open>assert\<close>.  With the library's assertions enabled and \<open>_MDSPAN_DEBUG\<close> not defined,
  tags \<open>(dynamic, 5)\<close> are built from \<open>(1000, 3)\<close> without failure, from scalars,
  from an array and from a span.  With \<open>_MDSPAN_DEBUG\<close> defined the construction
  aborts, reporting the expression of the \<open>assert\<close> and not the diagnostic.  With no
  dynamic dimension no check runs in any build: the tag \<open>(5)\<close> is built from \<open>(4)\<close>.
\<close>

theorem C6_mismatch_not_reported:
  "extents_from_scalars
     \<lparr>mdspan_debug = False, ndebug = False, libcpp_enable_assertions = True\<rparr>
     (Int_Type True 32) [dynamic_extent, 5] [1000, 3]
   = Inr \<lparr>m_vals = \<lparr>TDynamic = Int_Type True 32, Values = [dynamic_extent, 5],
        m_dyn_vals = [Some 1000]\<rparr>\<rparr> \<and>
   extents_from_array
     \<lparr>mdspan_debug = False, ndebug = False, libcpp_enable_assertions = True\<rparr>
     (Int_Type True 32) [dynamic_extent, 5] [1000, 3]
   = Inr \<lparr>m_vals = \<lparr>TDynamic = Int_Type True 32, Values = [dynamic_extent, 5],
        m_dyn_vals = [Some 1000]\<rparr>\<rparr> \<and>
   extents_from_span
     \<lparr>mdspan_debug = False, ndebug = False, libcpp_enable_assertions = True\<rparr>
     (Int_Type True 32) [dynamic_extent, 5] [1000, 3]
   = Inr \<lparr>m_vals = \<lparr>TDynamic = Int_Type True 32, Values = [dynamic_extent, 5],
        m_dyn_vals = [Some 1000]\<rparr>\<rparr> \<and>
   extents_from_scalars
     \<lparr>mdspan_debug = True, ndebug = False, libcpp_enable_assertions = True\<rparr>
     (Int_Type True 32) [dynamic_extent, 5] [1000, 3]
   = Inl (Assertion_Failed ''values[r] == static_cast<TDynamic>(static_val)'') \<and>
   extents_from_scalars
     \<lparr>mdspan_debug = True, ndebug = False, libcpp_enable_assertions = True\<rparr>
     (Int_Type True 32) [5] [4]
   = Inr \<lparr>m_vals = \<lparr>TDynamic = Int_Type True 32, Values = [5], m_dyn_vals = []\<rparr>\<rparr>"
  by (simp add: extents_from_scalars_def extents_from_array_def extents_from_span_def
      maybe_static_array_from_scalars_def maybe_static_array_from_array_def
      maybe_static_array_from_span_def with_m_vals_def with_dyn_vals_def assert_active_def
      full_form_loop.simps m_size_dynamic_def dyn_flag_def static_array_get_def
      dyn_map_get_def possibly_empty_array_set_def static_cast_def dynamic_extent_def)

text \<open>
  C7.  The claim: \<open>extent(r)\<close> and \<open>static_extent(r)\<close> with \<open>r\<close> outside
  \<open>[0, rank)\<close> abort under a checked build with the diagnostic "extents access: index
  must be less than rank".  Neither function tests its index and no build macro occurs
  in them; the lookup of the tag ends at the last tag.  For tags \<open>(dynamic, 5)\<close> the
  calls with \<open>r = 2\<close> return 5, and for the descriptor of rank 0 the calls with
  \<open>r = 0\<close> return 0.  Inside the range \<open>static_extent(r)\<close> is the tag.
\<close>

theorem C7_index_not_checked:
  "extent (extents_default Default_Initialization (Int_Type True 32) [dynamic_extent, 5]) 2
     = Some 5 \<and>
   static_extent (extents_default Default_Initialization (Int_Type True 32)
     [dynamic_extent, 5]) 2 = 5 \<and>
   rank (extents_default Default_Initialization (Int_Type True 32) [dynamic_extent, 5]) = 2 \<and>
   extent (extents_default Default_Initialization (Int_Type True 32) []) 0 = Some 0 \<and>
   static_extent (extents_default Default_Initialization (Int_Type True 32) []) 0 = 0"
  by (simp add: extents_default_def maybe_static_array_default_def m_size_dynamic_def
      dyn_flag_def extent_def static_extent_def static_value_def rank_def Extents_of_def
      maybe_static_array_value_def static_array_get_def
      dyn_map_get_def possibly_empty_array_get_def static_cast_def dynamic_extent_def)

end
